theory Spec2Isabelle
  imports Main "HOL-Library.Word" "HOL-Library.Char_ord"
begin

section \<open>Data model of \<open>xpcom/ds/nsTObserverArray.cpp\<close>\<close>

text \<open>
  The file implements the two mutation hooks of \<open>nsTObserverArray_base\<close>,
  \<open>AdjustIterators\<close> and \<open>ClearIterators\<close>. It holds two interchangeable bodies for
  each; the model follows the C++ one (the other only forwards to functions that are
  defined elsewhere). The class keeps a null-terminated, singly linked list of the
  iterators that are currently walking the array: \<open>mIterators\<close> is the head, every
  \<open>Iterator_base\<close> carries its position \<open>mPosition\<close> and the link \<open>mNext\<close>.

  \<^item> \<open>index_type\<close> is \<open>size_t\<close> and \<open>diff_type\<close> is \<open>ptrdiff_t\<close> (the
    \<open>extern "C"\<close> prototypes at the top of the file spell both out). Their width
    depends on the platform, so it is the type parameter \<open>'w\<close>; a \<open>size_t\<close> is a
    \<open>'w word\<close>, on which \<open>+\<close> wraps modulo \<open>2 ^ LENGTH('w)\<close> as unsigned C++
    arithmetic does. A \<open>ptrdiff_t\<close> is kept as its two's complement bit pattern, also
    a \<open>'w word\<close> (\<open>-1\<close> is the all-ones word); the conversion to \<open>size_t\<close> that
    \<open>mPosition += aAdjustment\<close> performs leaves that pattern as it is.
  \<^item> A pointer \<open>Iterator_base*\<close> is \<open>None\<close> (\<open>nullptr\<close>) or \<open>Some a\<close> for an
    address \<open>a\<close>.
  \<^item> The iterator objects live outside the array object; the store \<open>iterators\<close>
    maps the address of every allocated \<open>Iterator_base\<close> to its fields.
  \<^item> Both records are extensible: the \<open>more\<close> part of an iterator stands for the
    members that classes derived from \<open>Iterator_base\<close> add, the \<open>more\<close> part of
    the state for everything else the array object owns (its element storage).
\<close>

type_synonym addr = nat

type_synonym Iterator_ptr = "addr option"

text \<open>
  Modelled from the spec: the declarations of \<open>nsTObserverArray_base\<close> and of
  \<open>Iterator_base\<close> are in \<open>nsTObserverArray.h\<close>, which is not among the sources at
  hand. The members are the three that the code reads and writes. The specification
  describes a cursor as holding a current position, a non-negative integer, and a link
  to the next live cursor, and the registry as a singly linked list rooted at the
  sequence store; the position has the type of \<open>aModPos\<close>, with which the code
  compares it.
\<close>

record (overloaded) 'w Iterator_base =
  mPosition :: "'w word"
  mNext :: Iterator_ptr

record (overloaded) ('w, 'y) state =
  mIterators :: Iterator_ptr
  iterators :: "addr \<rightharpoonup> ('w, 'y) Iterator_base_scheme"

datatype error =
  AssertionFailure
  | InvalidPointer

text \<open>
  Modelled from the spec: the macro \<open>MOZ_ASSERT\<close> is defined in
  \<open>mozilla/Assertions.h\<close>, which is not among the sources at hand. The specification
  says that a violated input contract ``fails fast (assertion/panic)'' and is ``not a
  recoverable error'', so the assertion is modelled as a check that aborts the call
  with \<open>AssertionFailure\<close> when its condition is false and does nothing otherwise.
\<close>

definition MOZ_ASSERT :: "bool \<Rightarrow> error + unit" where
  "MOZ_ASSERT cond = (if cond then Inr () else Inl AssertionFailure)"

section \<open>The two loops\<close>

text \<open>
  \<^verbatim>\<open>
  Iterator_base* iter = mIterators;
  while (iter) {
    if (iter->mPosition > aModPos) {
      iter->mPosition += aAdjustment;
    }
    iter = iter->mNext;
  }
  \<close>
  The loop is a tail-recursive function of the store and of \<open>iter\<close>. Nothing bounds
  the number of iterations (on a cyclic list the loop runs forever), so the function is
  partial: \<open>None\<close> means that the loop does not return. Dereferencing a pointer that is
  neither null nor the address of an allocated iterator has no defined behaviour in
  C++; the model stops there with \<open>InvalidPointer\<close>.

  The link \<open>iter->mNext\<close> is read after the store to \<open>iter->mPosition\<close>; that store
  leaves \<open>mNext\<close> as it was, so the model takes the link from the iterator as it
  was read at the top of the iteration.

  The argument \<open>visited\<close> is a ghost: it records, in order, the addresses of the
  iterators on which the loop body ran. The code has no such variable and nothing is
  ever read from it.
\<close>

partial_function (option) AdjustIterators_loop ::
  "(addr \<rightharpoonup> ('w::len, 'y) Iterator_base_scheme) \<Rightarrow> addr list \<Rightarrow> Iterator_ptr \<Rightarrow> 'w word \<Rightarrow> 'w word
    \<Rightarrow> (error + (addr \<rightharpoonup> ('w, 'y) Iterator_base_scheme) \<times> addr list) option"
where
  "AdjustIterators_loop h visited iter aModPos aAdjustment =
     (case iter of
        None \<Rightarrow> Some (Inr (h, visited))
      | Some a \<Rightarrow>
          (case h a of
             None \<Rightarrow> Some (Inl InvalidPointer)
           | Some it \<Rightarrow>
               (if mPosition it > aModPos
                then AdjustIterators_loop
                       (h(a \<mapsto> it\<lparr>mPosition := mPosition it + aAdjustment\<rparr>))
                       (visited @ [a]) (mNext it) aModPos aAdjustment
                else AdjustIterators_loop h (visited @ [a]) (mNext it) aModPos aAdjustment)))"

text \<open>
  \<^verbatim>\<open>
  Iterator_base* iter = mIterators;
  while (iter) {
    iter->mPosition = 0;
    iter = iter->mNext;
  }
  \<close>
\<close>

partial_function (option) ClearIterators_loop ::
  "(addr \<rightharpoonup> ('w::len, 'y) Iterator_base_scheme) \<Rightarrow> addr list \<Rightarrow> Iterator_ptr
    \<Rightarrow> (error + (addr \<rightharpoonup> ('w, 'y) Iterator_base_scheme) \<times> addr list) option"
where
  "ClearIterators_loop h visited iter =
     (case iter of
        None \<Rightarrow> Some (Inr (h, visited))
      | Some a \<Rightarrow>
          (case h a of
             None \<Rightarrow> Some (Inl InvalidPointer)
           | Some it \<Rightarrow>
               ClearIterators_loop (h(a \<mapsto> it\<lparr>mPosition := 0\<rparr>)) (visited @ [a]) (mNext it)))"

section \<open>The two operations\<close>

text \<open>
  Both member functions return \<open>void\<close>: the result of the model is the state after the
  call, an error when the call aborts, or \<open>None\<close> when it does not return. The ghost
  list of the loop is dropped.
\<close>

definition AdjustIterators ::
  "('w::len, 'y, 'z) state_scheme \<Rightarrow> 'w word \<Rightarrow> 'w word \<Rightarrow> (error + ('w, 'y, 'z) state_scheme) option"
where
  "AdjustIterators s aModPos aAdjustment =
     (case MOZ_ASSERT (aAdjustment = - 1 \<or> aAdjustment = 1) of
        Inl e \<Rightarrow> Some (Inl e)
      | Inr _ \<Rightarrow>
          (case AdjustIterators_loop (iterators s) [] (mIterators s) aModPos aAdjustment of
             None \<Rightarrow> None
           | Some (Inl e) \<Rightarrow> Some (Inl e)
           | Some (Inr (h, visited)) \<Rightarrow> Some (Inr (s\<lparr>iterators := h\<rparr>))))"

definition ClearIterators ::
  "('w::len, 'y, 'z) state_scheme \<Rightarrow> (error + ('w, 'y, 'z) state_scheme) option"
where
  "ClearIterators s =
     (case ClearIterators_loop (iterators s) [] (mIterators s) of
        None \<Rightarrow> None
      | Some (Inl e) \<Rightarrow> Some (Inl e)
      | Some (Inr (h, visited)) \<Rightarrow> Some (Inr (s\<lparr>iterators := h\<rparr>)))"

section \<open>Well-formed registries\<close>

text \<open>
  \<open>chain h p cs\<close>: starting from the pointer \<open>p\<close> and following \<open>mNext\<close> through
  allocated iterators, the addresses met are \<open>cs\<close>, in this order, and the last link is
  \<open>nullptr\<close>. \<open>registry s cs\<close> says this of the list rooted at \<open>mIterators\<close>: the live
  iterators of the array are exactly \<open>cs\<close>.
\<close>

fun chain :: "(addr \<rightharpoonup> ('w, 'y) Iterator_base_scheme) \<Rightarrow> Iterator_ptr \<Rightarrow> addr list \<Rightarrow> bool" where
  "chain h p [] = (p = None)"
| "chain h p (c # cs) =
     (p = Some c \<and> (case h c of None \<Rightarrow> False | Some it \<Rightarrow> chain h (mNext it) cs))"

definition registry :: "('w, 'y, 'z) state_scheme \<Rightarrow> addr list \<Rightarrow> bool" where
  "registry s cs = chain (iterators s) (mIterators s) cs"

text \<open>The position stored in the iterator at an address (\<open>None\<close> when nothing is allocated there).\<close>

definition position :: "('w, 'y, 'z) state_scheme \<Rightarrow> addr \<Rightarrow> 'w word option" where
  "position s a = map_option mPosition (iterators s a)"

section \<open>\<open>xpcom/string/nsASCIIMask.cpp\<close>\<close>

text \<open>
  The file again holds two bodies; the model follows the C++ one, in which each table
  is built once from a test function and the four accessors return the tables.
  A \<open>char\<close> is a byte. The character literals of the source are \<open>'\f'\<close> (form feed,
  \<open>0x0C\<close>), \<open>'\t'\<close> (\<open>0x09\<close>), \<open>'\r'\<close> (\<open>0x0D\<close>), \<open>'\n'\<close> (\<open>0x0A\<close>), the space and
  the ten digits.
\<close>

definition TestWhitespace :: "char \<Rightarrow> bool" where
  "TestWhitespace c =
     (c = CHR 0x0C \<or> c = CHR 0x09 \<or> c = CHR 0x0D \<or> c = CHR 0x0A \<or> c = CHR '' '')"

definition TestCRLF :: "char \<Rightarrow> bool" where
  "TestCRLF c = (c = CHR 0x0D \<or> c = CHR 0x0A)"

definition TestCRLFTab :: "char \<Rightarrow> bool" where
  "TestCRLFTab c = (c = CHR 0x0D \<or> c = CHR 0x0A \<or> c = CHR 0x09)"

definition TestZeroToNine :: "char \<Rightarrow> bool" where
  "TestZeroToNine c =
     (c = CHR ''0'' \<or> c = CHR ''1'' \<or> c = CHR ''2'' \<or> c = CHR ''3'' \<or> c = CHR ''4'' \<or> c = CHR ''5'' \<or>
      c = CHR ''6'' \<or> c = CHR ''7'' \<or> c = CHR ''8'' \<or> c = CHR ''9'')"

text \<open>
  Modelled from the spec: the type \<open>ASCIIMaskArray\<close> and the function
  \<open>CreateASCIIMask\<close> are declared in \<open>nsASCIIMask.h\<close>, which is not among the sources
  at hand. The specification describes the result as ``a small fixed-size boolean lookup
  table keyed by the ASCII range, used to classify single bytes'', ``a simple
  precomputed-table lookup'': the table has one entry for each of the 128 ASCII bytes,
  and the entry of a byte is the value of the test function on it.
\<close>

type_synonym ASCIIMaskArray = "bool list"

definition CreateASCIIMask :: "(char \<Rightarrow> bool) \<Rightarrow> ASCIIMaskArray" where
  "CreateASCIIMask test = map (\<lambda>i. test (char_of i)) [0 ..< 128]"

definition sWhitespaceMask :: ASCIIMaskArray where
  "sWhitespaceMask = CreateASCIIMask TestWhitespace"

definition sCRLFMask :: ASCIIMaskArray where
  "sCRLFMask = CreateASCIIMask TestCRLF"

definition sCRLFTabMask :: ASCIIMaskArray where
  "sCRLFTabMask = CreateASCIIMask TestCRLFTab"

definition sZeroToNineMask :: ASCIIMaskArray where
  "sZeroToNineMask = CreateASCIIMask TestZeroToNine"

definition MaskWhitespace :: ASCIIMaskArray where
  "MaskWhitespace = sWhitespaceMask"

definition MaskCRLF :: ASCIIMaskArray where
  "MaskCRLF = sCRLFMask"

definition MaskCRLFTab :: ASCIIMaskArray where
  "MaskCRLFTab = sCRLFTabMask"

definition Mask0to9 :: ASCIIMaskArray where
  "Mask0to9 = sZeroToNineMask"

section \<open>Concrete registries\<close>

text \<open>
  States on a 64-bit platform, used to evaluate the operations. In the first, three
  live iterators at the addresses 1, 2 and 3 stand at the positions 0, 2 and 4; a fourth
  iterator at address 9 is allocated but not linked into this array's list. In the
  second, two live iterators stand at the positions 9 and 4. In the third, the only live
  iterator stands at the largest \<open>size_t\<close> value, \<open>2 ^ 64 - 1\<close>; in the fourth, the
  same iterator stands at position 0.
\<close>

definition example_three_cursors :: "(64, unit) state" where
  "example_three_cursors =
     \<lparr>mIterators = Some 1,
      iterators =
        [1 \<mapsto> \<lparr>mPosition = 0, mNext = Some 2\<rparr>,
         2 \<mapsto> \<lparr>mPosition = 2, mNext = Some 3\<rparr>,
         3 \<mapsto> \<lparr>mPosition = 4, mNext = None\<rparr>,
         9 \<mapsto> \<lparr>mPosition = 7, mNext = None\<rparr>]\<rparr>"

definition example_two_cursors :: "(64, unit) state" where
  "example_two_cursors =
     \<lparr>mIterators = Some 6,
      iterators =
        [6 \<mapsto> \<lparr>mPosition = 9, mNext = Some 5\<rparr>,
         5 \<mapsto> \<lparr>mPosition = 4, mNext = None\<rparr>]\<rparr>"

definition example_cursor_at_max :: "(64, unit) state" where
  "example_cursor_at_max =
     \<lparr>mIterators = Some 1,
      iterators = [1 \<mapsto> \<lparr>mPosition = - 1, mNext = None\<rparr>]\<rparr>"

definition example_cursor_wrapped :: "(64, unit) state" where
  "example_cursor_wrapped =
     \<lparr>mIterators = Some 1,
      iterators = [1 \<mapsto> \<lparr>mPosition = 0, mNext = None\<rparr>]\<rparr>"

section \<open>Chains in the store\<close>

lemma chain_upd:
  "c \<notin> set cs \<Longrightarrow> chain (h(c := x)) p cs = chain h p cs"
  by (induction cs arbitrary: p) (auto split: option.splits)

lemma chain_unique:
  "chain h p cs \<Longrightarrow> chain h p ds \<Longrightarrow> cs = ds"
proof (induction cs arbitrary: p ds)
  case Nil
  then show ?case by (cases ds) auto
next
  case (Cons c cs)
  then show ?case by (cases ds) (auto split: option.splits)
qed

lemma chain_drop:
  "chain h p (xs @ ys) \<Longrightarrow> \<exists>q. chain h q ys"
proof (induction xs arbitrary: p)
  case Nil
  then show ?case by auto
next
  case (Cons x xs)
  from Cons.prems obtain it where "h x = Some it" and "chain h (mNext it) (xs @ ys)"
    by (auto split: option.splits)
  then show ?case using Cons.IH by blast
qed

lemma chain_suffix:
  assumes "chain h p (xs @ c # ys)"
  shows "chain h (Some c) (c # ys)"
proof -
  from assms obtain q where "chain h q (c # ys)"
    using chain_drop by blast
  then show ?thesis by simp
qed

lemma chain_hd_notin:
  assumes "chain h p (c # cs)"
  shows "c \<notin> set cs"
proof
  assume "c \<in> set cs"
  then obtain xs ys where cs: "cs = xs @ c # ys"
    by (auto simp: in_set_conv_decomp)
  from assms obtain it where it: "h c = Some it" and tl: "chain h (mNext it) cs"
    by (auto split: option.splits)
  from tl cs have "chain h (Some c) (c # ys)"
    by (auto dest: chain_suffix)
  with it have "chain h (mNext it) ys" by simp
  with tl have "cs = ys" by (rule chain_unique)
  with cs show False by simp
qed

lemma chain_distinct: "chain h p cs \<Longrightarrow> distinct cs"
proof (induction cs arbitrary: p)
  case Nil
  show ?case by simp
next
  case (Cons c cs)
  from Cons.prems have "c \<notin> set cs" by (rule chain_hd_notin)
  moreover from Cons.prems obtain it where "h c = Some it" and "chain h (mNext it) cs"
    by (auto split: option.splits)
  then have "distinct cs" using Cons.IH by blast
  ultimately show ?case by simp
qed

lemma AdjustIterators_loop_null:
  "AdjustIterators_loop h vis None p d = Some (Inr (h, vis))"
  by (subst AdjustIterators_loop.simps) simp

lemma AdjustIterators_loop_step:
  "h a = Some it \<Longrightarrow>
   AdjustIterators_loop h vis (Some a) p d =
     AdjustIterators_loop
       (if mPosition it > p then h(a \<mapsto> it\<lparr>mPosition := mPosition it + d\<rparr>) else h)
       (vis @ [a]) (mNext it) p d"
  by (subst AdjustIterators_loop.simps) simp

lemma AdjustIterators_loop_invalid:
  "h a = None \<Longrightarrow> AdjustIterators_loop h vis (Some a) p d = Some (Inl InvalidPointer)"
  by (subst AdjustIterators_loop.simps) simp

lemma AdjustIterators_loop_chain:
  "chain h iter cs \<Longrightarrow>
   \<exists>h'. AdjustIterators_loop h vis iter p d = Some (Inr (h', vis @ cs))
       \<and> (\<forall>a. a \<notin> set cs \<longrightarrow> h' a = h a)
       \<and> (\<forall>a \<in> set cs. \<exists>it. h a = Some it
             \<and> h' a = Some (it\<lparr>mPosition := (if mPosition it > p then mPosition it + d else mPosition it)\<rparr>))"
proof (induction cs arbitrary: h vis iter)
  case Nil
  then show ?case by (simp add: AdjustIterators_loop_null)
next
  case (Cons c cs)
  from Cons.prems obtain it where iter: "iter = Some c" and it: "h c = Some it"
    and tl: "chain h (mNext it) cs"
    by (auto split: option.splits)
  from Cons.prems have notin: "c \<notin> set cs" by (rule chain_hd_notin)
  define it' where "it' = it\<lparr>mPosition := (if mPosition it > p then mPosition it + d else mPosition it)\<rparr>"
  define h1 where "h1 = (if mPosition it > p then h(c \<mapsto> it\<lparr>mPosition := mPosition it + d\<rparr>) else h)"
  have h1c: "h1 c = Some it'" by (simp add: h1_def it'_def it)
  have h1o: "\<And>a. a \<noteq> c \<Longrightarrow> h1 a = h a" by (simp add: h1_def)
  have "chain h1 (mNext it) cs"
    using tl notin by (simp add: h1_def chain_upd)
  from Cons.IH [OF this, of "vis @ [c]"] obtain h' where
    run: "AdjustIterators_loop h1 (vis @ [c]) (mNext it) p d = Some (Inr (h', (vis @ [c]) @ cs))"
    and out: "\<forall>a. a \<notin> set cs \<longrightarrow> h' a = h1 a"
    and ins: "\<forall>a \<in> set cs. \<exists>it. h1 a = Some it
             \<and> h' a = Some (it\<lparr>mPosition := (if mPosition it > p then mPosition it + d else mPosition it)\<rparr>)"
    by blast
  have "AdjustIterators_loop h vis iter p d = Some (Inr (h', vis @ c # cs))"
    using run AdjustIterators_loop_step [of h c it vis p d, OF it] by (simp add: iter h1_def)
  moreover have "\<forall>a. a \<notin> set (c # cs) \<longrightarrow> h' a = h a"
    using out h1o by simp
  moreover have "\<forall>a \<in> set (c # cs). \<exists>it. h a = Some it
             \<and> h' a = Some (it\<lparr>mPosition := (if mPosition it > p then mPosition it + d else mPosition it)\<rparr>)"
  proof
    fix a assume "a \<in> set (c # cs)"
    then consider "a = c" | "a \<in> set cs" "a \<noteq> c" using notin by auto
    then show "\<exists>it. h a = Some it
             \<and> h' a = Some (it\<lparr>mPosition := (if mPosition it > p then mPosition it + d else mPosition it)\<rparr>)"
    proof cases
      case 1
      with out notin h1c it show ?thesis by (simp add: it'_def)
    next
      case 2
      from ins 2(1) obtain it0 where a1: "h1 a = Some it0"
        and a2: "h' a = Some (it0\<lparr>mPosition := (if mPosition it0 > p then mPosition it0 + d else mPosition it0)\<rparr>)"
        by blast
      from a1 h1o 2(2) have "h a = Some it0" by simp
      with a2 show ?thesis by blast
    qed
  qed
  ultimately show ?case by blast
qed

section \<open>The loops on a well-formed registry\<close>

lemma AdjustIterators_loop_no_assert:
  assumes "AdjustIterators_loop h vis iter p d = Some r"
  shows "r \<noteq> Inl AssertionFailure"
  by (rule AdjustIterators_loop.raw_induct
        [where P = "\<lambda>h vis iter p d r. r \<noteq> Inl AssertionFailure", OF _ assms])
     (auto split: option.splits if_splits)

lemma ClearIterators_loop_null:
  "ClearIterators_loop h vis None = Some (Inr (h, vis))"
  by (subst ClearIterators_loop.simps) simp

lemma ClearIterators_loop_step:
  "h a = Some it \<Longrightarrow>
   ClearIterators_loop h vis (Some a) =
     ClearIterators_loop (h(a \<mapsto> it\<lparr>mPosition := 0\<rparr>)) (vis @ [a]) (mNext it)"
  by (subst ClearIterators_loop.simps) simp

lemma ClearIterators_loop_invalid:
  "h a = None \<Longrightarrow> ClearIterators_loop h vis (Some a) = Some (Inl InvalidPointer)"
  by (subst ClearIterators_loop.simps) simp

lemma ClearIterators_loop_chain:
  "chain h iter cs \<Longrightarrow>
   \<exists>h'. ClearIterators_loop h vis iter = Some (Inr (h', vis @ cs))
       \<and> (\<forall>a. a \<notin> set cs \<longrightarrow> h' a = h a)
       \<and> (\<forall>a \<in> set cs. \<exists>it. h a = Some it \<and> h' a = Some (it\<lparr>mPosition := 0\<rparr>))"
proof (induction cs arbitrary: h vis iter)
  case Nil
  then show ?case by (simp add: ClearIterators_loop_null)
next
  case (Cons c cs)
  from Cons.prems obtain it where iter: "iter = Some c" and it: "h c = Some it"
    and tl: "chain h (mNext it) cs"
    by (auto split: option.splits)
  from Cons.prems have notin: "c \<notin> set cs" by (rule chain_hd_notin)
  define h1 where "h1 = h(c \<mapsto> it\<lparr>mPosition := 0\<rparr>)"
  have h1c: "h1 c = Some (it\<lparr>mPosition := 0\<rparr>)" by (simp add: h1_def)
  have h1o: "\<And>a. a \<noteq> c \<Longrightarrow> h1 a = h a" by (simp add: h1_def)
  have "chain h1 (mNext it) cs"
    using tl notin by (simp add: h1_def chain_upd)
  from Cons.IH [OF this, of "vis @ [c]"] obtain h' where
    run: "ClearIterators_loop h1 (vis @ [c]) (mNext it) = Some (Inr (h', (vis @ [c]) @ cs))"
    and out: "\<forall>a. a \<notin> set cs \<longrightarrow> h' a = h1 a"
    and ins: "\<forall>a \<in> set cs. \<exists>it. h1 a = Some it \<and> h' a = Some (it\<lparr>mPosition := 0\<rparr>)"
    by blast
  have "ClearIterators_loop h vis iter = Some (Inr (h', vis @ c # cs))"
    using run ClearIterators_loop_step [of h c it vis, OF it] by (simp add: iter h1_def)
  moreover have "\<forall>a. a \<notin> set (c # cs) \<longrightarrow> h' a = h a"
    using out h1o by simp
  moreover have "\<forall>a \<in> set (c # cs). \<exists>it. h a = Some it \<and> h' a = Some (it\<lparr>mPosition := 0\<rparr>)"
  proof
    fix a assume "a \<in> set (c # cs)"
    then consider "a = c" | "a \<in> set cs" "a \<noteq> c" using notin by auto
    then show "\<exists>it. h a = Some it \<and> h' a = Some (it\<lparr>mPosition := 0\<rparr>)"
    proof cases
      case 1
      with out notin h1c it show ?thesis by simp
    next
      case 2
      from ins 2(1) obtain it0 where a1: "h1 a = Some it0"
        and a2: "h' a = Some (it0\<lparr>mPosition := 0\<rparr>)"
        by blast
      from a1 h1o 2(2) have "h a = Some it0" by simp
      with a2 show ?thesis by blast
    qed
  qed
  ultimately show ?case by blast
qed

text \<open>A store that differs only in positions has the same chains.\<close>

lemma chain_same_links:
  "\<forall>a \<in> set cs. \<exists>it v. h a = Some it \<and> h' a = Some (it\<lparr>mPosition := v\<rparr>) \<Longrightarrow>
   chain h p cs \<Longrightarrow> chain h' p cs"
proof (induction cs arbitrary: p)
  case Nil
  then show ?case by simp
next
  case (Cons c cs)
  from Cons.prems(2) obtain it where p: "p = Some c" and it: "h c = Some it"
    and tl: "chain h (mNext it) cs"
    by (auto split: option.splits)
  from Cons.prems(1) it obtain v where "h' c = Some (it\<lparr>mPosition := v\<rparr>)"
    by auto
  moreover have "chain h' (mNext it) cs"
    using Cons.IH [OF _ tl] Cons.prems(1) by simp
  ultimately show ?case by (simp add: p)
qed

lemma AdjustIterators_registry:
  assumes reg: "registry s cs" and d: "d = 1 \<or> d = - 1"
  shows "\<exists>h'. AdjustIterators s p d = Some (Inr (s\<lparr>iterators := h'\<rparr>))
       \<and> AdjustIterators_loop (iterators s) [] (mIterators s) p d = Some (Inr (h', cs))
       \<and> (\<forall>a. a \<notin> set cs \<longrightarrow> h' a = iterators s a)
       \<and> (\<forall>a \<in> set cs. \<exists>it. iterators s a = Some it
             \<and> h' a = Some (it\<lparr>mPosition := (if mPosition it > p then mPosition it + d else mPosition it)\<rparr>))"
proof -
  from reg have "chain (iterators s) (mIterators s) cs" by (simp add: registry_def)
  from AdjustIterators_loop_chain [OF this, of "[]" p d] obtain h' where
    run: "AdjustIterators_loop (iterators s) [] (mIterators s) p d = Some (Inr (h', cs))"
    and rest: "\<forall>a. a \<notin> set cs \<longrightarrow> h' a = iterators s a"
      "\<forall>a \<in> set cs. \<exists>it. iterators s a = Some it
             \<and> h' a = Some (it\<lparr>mPosition := (if mPosition it > p then mPosition it + d else mPosition it)\<rparr>)"
    by auto
  from d run have "AdjustIterators s p d = Some (Inr (s\<lparr>iterators := h'\<rparr>))"
    by (auto simp: AdjustIterators_def MOZ_ASSERT_def)
  with run rest show ?thesis by blast
qed

lemma ClearIterators_registry:
  assumes reg: "registry s cs"
  shows "\<exists>h'. ClearIterators s = Some (Inr (s\<lparr>iterators := h'\<rparr>))
       \<and> ClearIterators_loop (iterators s) [] (mIterators s) = Some (Inr (h', cs))
       \<and> (\<forall>a. a \<notin> set cs \<longrightarrow> h' a = iterators s a)
       \<and> (\<forall>a \<in> set cs. \<exists>it. iterators s a = Some it \<and> h' a = Some (it\<lparr>mPosition := 0\<rparr>))"
proof -
  from reg have "chain (iterators s) (mIterators s) cs" by (simp add: registry_def)
  from ClearIterators_loop_chain [OF this, of "[]"] obtain h' where
    run: "ClearIterators_loop (iterators s) [] (mIterators s) = Some (Inr (h', cs))"
    and rest: "\<forall>a. a \<notin> set cs \<longrightarrow> h' a = iterators s a"
      "\<forall>a \<in> set cs. \<exists>it. iterators s a = Some it \<and> h' a = Some (it\<lparr>mPosition := 0\<rparr>)"
    by auto
  from run have "ClearIterators s = Some (Inr (s\<lparr>iterators := h'\<rparr>))"
    by (simp add: ClearIterators_def)
  with run rest show ?thesis by blast
qed

section \<open>Facts about positions, states and bytes\<close>

text \<open>Decrementing a position that is above another one does not wrap, and stays at or above it.\<close>

lemma word_dec_no_wrap:
  fixes p pos :: "'w::len word"
  assumes "p < pos"
  shows "1 \<le> uint pos" and "uint (pos + - 1) = uint pos - 1" and "p \<le> pos + - 1" and "pos + - 1 \<le> pos"
proof -
  from assms have lt: "unat p < unat pos" by (simp add: word_less_nat_alt)
  then have nz: "pos \<noteq> 0" by auto
  then have dec: "unat (pos - 1) = unat pos - 1" by (rule unat_minus_one)
  from lt have "1 \<le> int (unat pos)" by linarith
  then show "1 \<le> uint pos" by simp
  from lt dec have "int (unat (pos - 1)) = int (unat pos) - 1" by linarith
  then show "uint (pos + - 1) = uint pos - 1" by simp
  from lt dec show "p \<le> pos + - 1" by (simp add: word_le_nat_alt)
  from dec show "pos + - 1 \<le> pos" by (simp add: word_le_nat_alt)
qed

text \<open>Incrementing a position other than the largest one does not wrap.\<close>

lemma word_inc_above:
  fixes p pos :: "'w::len word"
  assumes "p < pos" and "pos \<noteq> - 1"
  shows "p < pos + 1"
proof -
  from assms(2) inc_less_eq_iff [of pos "pos + 1"] have "pos < pos + 1" by simp
  with assms(1) show ?thesis by simp
qed

lemma state_iterators_same:
  "(\<And>a. h a = iterators s a) \<Longrightarrow> s\<lparr>iterators := h\<rparr> = s"
proof -
  assume "\<And>a. h a = iterators s a"
  then have "h = iterators s" by (rule ext)
  then show ?thesis by simp
qed

text \<open>One iteration of the loop, in a form that evaluates on a concrete store.\<close>

lemma AdjustIterators_loop_Some:
  "AdjustIterators_loop h vis (Some a) p d =
     (case h a of
        None \<Rightarrow> Some (Inl InvalidPointer)
      | Some it \<Rightarrow>
          AdjustIterators_loop
            (if mPosition it > p then h(a \<mapsto> it\<lparr>mPosition := mPosition it + d\<rparr>) else h)
            (vis @ [a]) (mNext it) p d)"
  by (subst AdjustIterators_loop.simps) (simp split: option.splits)

lemma char_eq_code: "(c = d) = (of_char c = (of_char d :: nat))"
  by simp

text \<open>The ten equalities of \<open>TestZeroToNine\<close> cover exactly the bytes from \<open>'0'\<close> to \<open>'9'\<close>.\<close>

lemma TestZeroToNine_range:
  "TestZeroToNine c = (CHR ''0'' \<le> c \<and> c \<le> CHR ''9'')"
proof -
  define n :: nat where "n = of_char c"
  have "TestZeroToNine c =
    (n = 48 \<or> n = 49 \<or> n = 50 \<or> n = 51 \<or> n = 52 \<or> n = 53 \<or> n = 54 \<or> n = 55 \<or> n = 56 \<or> n = 57)"
    unfolding TestZeroToNine_def n_def
    by (simp only: char_eq_code [of c]) simp
  also have "\<dots> = (48 \<le> n \<and> n \<le> 57)" by arith
  also have "\<dots> = (CHR ''0'' \<le> c \<and> c \<le> CHR ''9'')"
    by (simp add: less_eq_char_def n_def)
  finally show ?thesis .
qed

lemma CreateASCIIMask_nth:
  "of_char c < (128 :: nat) \<Longrightarrow> CreateASCIIMask f ! of_char c = f c"
  by (simp add: CreateASCIIMask_def)

section \<open>Claims about \<open>AdjustIterators\<close> and \<open>ClearIterators\<close>\<close>

text \<open>
  C1. On every registry of live iterators, a call \<open>AdjustIterators(aModPos, aAdjustment)\<close>
  with \<open>aAdjustment\<close> equal to \<open>+1\<close> or \<open>-1\<close> returns, and in the state it leaves every
  live iterator whose position was strictly greater than \<open>aModPos\<close> has had
  \<open>aAdjustment\<close> added to its position (the addition of \<open>size_t\<close>), while every live
  iterator whose position was less than or equal to \<open>aModPos\<close> has exactly its prior
  position.
\<close>

theorem AdjustIterators_shifts_cursors_after_modPos:
  assumes "registry s cs" and "d = 1 \<or> d = - 1"
  shows "\<exists>s'. AdjustIterators s p d = Some (Inr s')
           \<and> (\<forall>c \<in> set cs. \<exists>pos. position s c = Some pos
                 \<and> (p < pos \<longrightarrow> position s' c = Some (pos + d))
                 \<and> (pos \<le> p \<longrightarrow> position s' c = Some pos))"
proof -
  from AdjustIterators_registry [OF assms, of p] obtain h' where
    run: "AdjustIterators s p d = Some (Inr (s\<lparr>iterators := h'\<rparr>))"
    and ins: "\<forall>a \<in> set cs. \<exists>it. iterators s a = Some it
             \<and> h' a = Some (it\<lparr>mPosition := (if mPosition it > p then mPosition it + d else mPosition it)\<rparr>)"
    by blast
  have "\<exists>pos. position s c = Some pos
                 \<and> (p < pos \<longrightarrow> position (s\<lparr>iterators := h'\<rparr>) c = Some (pos + d))
                 \<and> (pos \<le> p \<longrightarrow> position (s\<lparr>iterators := h'\<rparr>) c = Some pos)"
    if "c \<in> set cs" for c
  proof -
    from ins that obtain it where "iterators s c = Some it"
      and "h' c = Some (it\<lparr>mPosition := (if mPosition it > p then mPosition it + d else mPosition it)\<rparr>)"
      by blast
    then show ?thesis by (auto simp: position_def)
  qed
  with run show ?thesis by blast
qed

text \<open>
  The three iterators at positions 0, 2 and 4, after an insertion at position 2: only the
  iterator at position 4 moves, to 5.
\<close>

theorem AdjustIterators_shifts_cursors_after_modPos_witness:
  "registry example_three_cursors [1, 2, 3] \<and> ((1 :: 64 word) = 1 \<or> (1 :: 64 word) = - 1)
   \<and> (\<exists>s'. AdjustIterators example_three_cursors 2 1 = Some (Inr s')
         \<and> position s' 1 = Some 0 \<and> position s' 2 = Some 2 \<and> position s' 3 = Some 5)"
proof -
  have r: "registry example_three_cursors [1, 2, 3]"
    by (simp add: registry_def example_three_cursors_def)
  have d: "(1 :: 64 word) = 1 \<or> (1 :: 64 word) = - 1" by simp
  have pos: "position example_three_cursors 1 = Some 0"
    "position example_three_cursors 2 = Some 2"
    "position example_three_cursors 3 = Some 4"
    by (simp_all add: position_def example_three_cursors_def)
  from AdjustIterators_shifts_cursors_after_modPos [OF r d, of 2]
  show ?thesis using r pos by auto
qed

text \<open>
  C2. On every registry of live iterators \<open>ClearIterators()\<close> returns, and in the state
  it leaves the registry has the same members, each of them at position zero whatever
  its position was before: no live iterator remains at a non-zero position.
\<close>


theorem ClearIterators_zeroes_every_cursor:
  assumes "registry s cs"
  shows "\<exists>s'. ClearIterators s = Some (Inr s')
           \<and> registry s' cs
           \<and> (\<forall>c \<in> set cs. position s' c = Some 0)"
proof -
  from ClearIterators_registry [OF assms] obtain h' where
    run: "ClearIterators s = Some (Inr (s\<lparr>iterators := h'\<rparr>))"
    and ins: "\<forall>a \<in> set cs. \<exists>it. iterators s a = Some it \<and> h' a = Some (it\<lparr>mPosition := 0\<rparr>)"
    by blast
  from ins have "\<forall>a \<in> set cs. \<exists>it v. iterators s a = Some it \<and> h' a = Some (it\<lparr>mPosition := v\<rparr>)"
    by blast
  with assms have "registry (s\<lparr>iterators := h'\<rparr>) cs"
    by (simp add: registry_def chain_same_links)
  moreover from ins have "\<forall>c \<in> set cs. position (s\<lparr>iterators := h'\<rparr>) c = Some 0"
    by (auto simp: position_def)
  ultimately show ?thesis using run by blast
qed

text \<open>The three iterators at positions 0, 2 and 4 all end at position 0.\<close>


theorem ClearIterators_zeroes_every_cursor_witness:
  "registry example_three_cursors [1, 2, 3]
   \<and> (\<exists>s'. ClearIterators example_three_cursors = Some (Inr s')
         \<and> registry s' [1, 2, 3]
         \<and> position s' 1 = Some 0 \<and> position s' 2 = Some 0 \<and> position s' 3 = Some 0)"
proof -
  have r: "registry example_three_cursors [1, 2, 3]"
    by (simp add: registry_def example_three_cursors_def)
  from ClearIterators_zeroes_every_cursor [OF r]
  show ?thesis using r by auto
qed

text \<open>
  C3. A call of \<open>AdjustIterators\<close> with an adjustment other than \<open>+1\<close> and \<open>-1\<close>
  fails fast: the call aborts with the assertion failure, whatever the state, and hands
  back no state to continue with. With an adjustment of \<open>+1\<close> or \<open>-1\<close> the
  assertion failure is not a possible outcome of the call.
\<close>


theorem AdjustIterators_asserts_unit_adjustment:
  "(d \<noteq> 1 \<and> d \<noteq> - 1 \<longrightarrow> AdjustIterators s p d = Some (Inl AssertionFailure))
   \<and> (d = 1 \<or> d = - 1 \<longrightarrow> AdjustIterators s p d \<noteq> Some (Inl AssertionFailure))"
proof (intro conjI impI)
  assume "d \<noteq> 1 \<and> d \<noteq> - 1"
  then show "AdjustIterators s p d = Some (Inl AssertionFailure)"
    by (simp add: AdjustIterators_def MOZ_ASSERT_def)
next
  assume d: "d = 1 \<or> d = - 1"
  show "AdjustIterators s p d \<noteq> Some (Inl AssertionFailure)"
  proof (cases "AdjustIterators_loop (iterators s) [] (mIterators s) p d")
    case None
    with d show ?thesis by (auto simp: AdjustIterators_def MOZ_ASSERT_def)
  next
    case (Some r)
    then have "r \<noteq> Inl AssertionFailure" by (rule AdjustIterators_loop_no_assert)
    with d Some show ?thesis
      by (auto simp: AdjustIterators_def MOZ_ASSERT_def split: sum.splits)
  qed
qed

text \<open>Adjustments of 2 and 0 abort; adjustments of 1 and -1 do not.\<close>


theorem AdjustIterators_asserts_unit_adjustment_witness:
  "AdjustIterators example_three_cursors 2 2 = Some (Inl AssertionFailure)
   \<and> AdjustIterators example_three_cursors 2 0 = Some (Inl AssertionFailure)
   \<and> AdjustIterators example_three_cursors 2 1 \<noteq> Some (Inl AssertionFailure)
   \<and> AdjustIterators example_three_cursors 2 (- 1) \<noteq> Some (Inl AssertionFailure)"
  using AdjustIterators_asserts_unit_adjustment [of 2 example_three_cursors 2]
    AdjustIterators_asserts_unit_adjustment [of 0 example_three_cursors 2]
    AdjustIterators_asserts_unit_adjustment [of 1 example_three_cursors 2]
    AdjustIterators_asserts_unit_adjustment [of "- 1" example_three_cursors 2]
  by simp

text \<open>
  C4. The position of a live iterator after \<open>AdjustIterators(aModPos, aAdjustment)\<close>
  is a function of its own position before the call, of \<open>aModPos\<close> and of
  \<open>aAdjustment\<close> only: take any two registries, a live iterator in each, both at the
  same position; after the same call the two iterators are again at the same position,
  whichever other iterators are linked before or after them and wherever those stand.
\<close>


theorem AdjustIterators_cursors_independent:
  assumes "registry s1 cs1" and "registry s2 cs2" and "d = 1 \<or> d = - 1"
    and "c1 \<in> set cs1" and "c2 \<in> set cs2"
    and "position s1 c1 = position s2 c2"
  shows "\<exists>s1' s2'. AdjustIterators s1 p d = Some (Inr s1')
           \<and> AdjustIterators s2 p d = Some (Inr s2')
           \<and> position s1' c1 = position s2' c2"
proof -
  from AdjustIterators_registry [OF assms(1) assms(3), of p] obtain h1 where
    run1: "AdjustIterators s1 p d = Some (Inr (s1\<lparr>iterators := h1\<rparr>))"
    and ins1: "\<forall>a \<in> set cs1. \<exists>it. iterators s1 a = Some it
             \<and> h1 a = Some (it\<lparr>mPosition := (if mPosition it > p then mPosition it + d else mPosition it)\<rparr>)"
    by blast
  from AdjustIterators_registry [OF assms(2) assms(3), of p] obtain h2 where
    run2: "AdjustIterators s2 p d = Some (Inr (s2\<lparr>iterators := h2\<rparr>))"
    and ins2: "\<forall>a \<in> set cs2. \<exists>it. iterators s2 a = Some it
             \<and> h2 a = Some (it\<lparr>mPosition := (if mPosition it > p then mPosition it + d else mPosition it)\<rparr>)"
    by blast
  from ins1 assms(4) obtain it1 where i1: "iterators s1 c1 = Some it1"
    and j1: "h1 c1 = Some (it1\<lparr>mPosition := (if mPosition it1 > p then mPosition it1 + d else mPosition it1)\<rparr>)"
    by blast
  from ins2 assms(5) obtain it2 where i2: "iterators s2 c2 = Some it2"
    and j2: "h2 c2 = Some (it2\<lparr>mPosition := (if mPosition it2 > p then mPosition it2 + d else mPosition it2)\<rparr>)"
    by blast
  from assms(6) i1 i2 have "mPosition it1 = mPosition it2"
    by (simp add: position_def)
  with j1 j2 have "position (s1\<lparr>iterators := h1\<rparr>) c1 = position (s2\<lparr>iterators := h2\<rparr>) c2"
    by (simp add: position_def)
  with run1 run2 show ?thesis by blast
qed

text \<open>
  The iterator at address 3 of the first registry and the iterator at address 5 of the
  second are both at position 4, among different neighbours; after an insertion at
  position 2 both are at position 5.
\<close>

theorem AdjustIterators_cursors_independent_witness:
  "registry example_three_cursors [1, 2, 3] \<and> registry example_two_cursors [6, 5]
   \<and> position example_three_cursors 3 = position example_two_cursors 5
   \<and> (\<exists>s1' s2'. AdjustIterators example_three_cursors 2 1 = Some (Inr s1')
         \<and> AdjustIterators example_two_cursors 2 1 = Some (Inr s2')
         \<and> position s1' 3 = position s2' 5)"
proof -
  have r1: "registry example_three_cursors [1, 2, 3]"
    by (simp add: registry_def example_three_cursors_def)
  have r2: "registry example_two_cursors [6, 5]"
    by (simp add: registry_def example_two_cursors_def)
  have d: "(1 :: 64 word) = 1 \<or> (1 :: 64 word) = - 1" by simp
  have e: "position example_three_cursors 3 = position example_two_cursors 5"
    by (simp add: position_def example_three_cursors_def example_two_cursors_def)
  from AdjustIterators_cursors_independent [OF r1 r2 d _ _ e, of 2]
  show ?thesis using r1 r2 e by simp
qed

text \<open>
  C5. Neither operation returns a value; all either does is to store into the
  \<open>mPosition\<close> field of live iterators. On every registry, after
  \<open>AdjustIterators\<close> (with an adjustment of \<open>+1\<close> or \<open>-1\<close>) and after
  \<open>ClearIterators\<close>: the head pointer \<open>mIterators\<close> is the same, the rest of the
  array object is the same, the registry has the same members in the same order, every
  iterator outside the registry is untouched, and every live iterator differs from its
  former self in \<open>mPosition\<close> at most (its \<open>mNext\<close> and the members added by derived
  classes are as before).
\<close>


theorem operations_change_positions_only:
  assumes "registry s cs" and "d = 1 \<or> d = - 1"
  shows "\<exists>s1 s2. AdjustIterators s p d = Some (Inr s1) \<and> ClearIterators s = Some (Inr s2)
           \<and> mIterators s1 = mIterators s \<and> mIterators s2 = mIterators s
           \<and> state.more s1 = state.more s \<and> state.more s2 = state.more s
           \<and> registry s1 cs \<and> registry s2 cs
           \<and> (\<forall>a. a \<notin> set cs \<longrightarrow> iterators s1 a = iterators s a \<and> iterators s2 a = iterators s a)
           \<and> (\<forall>a \<in> set cs. \<exists>it v1 v2. iterators s a = Some it
                 \<and> iterators s1 a = Some (it\<lparr>mPosition := v1\<rparr>)
                 \<and> iterators s2 a = Some (it\<lparr>mPosition := v2\<rparr>))"
proof -
  from AdjustIterators_registry [OF assms, of p] obtain h1 where
    run1: "AdjustIterators s p d = Some (Inr (s\<lparr>iterators := h1\<rparr>))"
    and out1: "\<forall>a. a \<notin> set cs \<longrightarrow> h1 a = iterators s a"
    and ins1: "\<forall>a \<in> set cs. \<exists>it. iterators s a = Some it
             \<and> h1 a = Some (it\<lparr>mPosition := (if mPosition it > p then mPosition it + d else mPosition it)\<rparr>)"
    by blast
  from ClearIterators_registry [OF assms(1)] obtain h2 where
    run2: "ClearIterators s = Some (Inr (s\<lparr>iterators := h2\<rparr>))"
    and out2: "\<forall>a. a \<notin> set cs \<longrightarrow> h2 a = iterators s a"
    and ins2: "\<forall>a \<in> set cs. \<exists>it. iterators s a = Some it \<and> h2 a = Some (it\<lparr>mPosition := 0\<rparr>)"
    by blast
  let ?s1 = "s\<lparr>iterators := h1\<rparr>" and ?s2 = "s\<lparr>iterators := h2\<rparr>"
  have w1: "\<forall>a \<in> set cs. \<exists>it v. iterators s a = Some it \<and> h1 a = Some (it\<lparr>mPosition := v\<rparr>)"
    using ins1 by blast
  have w2: "\<forall>a \<in> set cs. \<exists>it v. iterators s a = Some it \<and> h2 a = Some (it\<lparr>mPosition := v\<rparr>)"
    using ins2 by blast
  have reg1: "registry ?s1 cs"
    using assms(1) w1 by (simp add: registry_def chain_same_links)
  have reg2: "registry ?s2 cs"
    using assms(1) w2 by (simp add: registry_def chain_same_links)
  have outs: "\<forall>a. a \<notin> set cs \<longrightarrow> iterators ?s1 a = iterators s a \<and> iterators ?s2 a = iterators s a"
    using out1 out2 by simp
  have inss: "\<forall>a \<in> set cs. \<exists>it v1 v2. iterators s a = Some it
                 \<and> iterators ?s1 a = Some (it\<lparr>mPosition := v1\<rparr>)
                 \<and> iterators ?s2 a = Some (it\<lparr>mPosition := v2\<rparr>)"
  proof
    fix a assume a: "a \<in> set cs"
    from w1 a obtain it v1 where i: "iterators s a = Some it"
      and j: "h1 a = Some (it\<lparr>mPosition := v1\<rparr>)"
      by blast
    from ins2 a i have k: "h2 a = Some (it\<lparr>mPosition := 0\<rparr>)" by auto
    have "iterators s a = Some it \<and> iterators ?s1 a = Some (it\<lparr>mPosition := v1\<rparr>)
                 \<and> iterators ?s2 a = Some (it\<lparr>mPosition := 0\<rparr>)"
      using i j k by simp
    then show "\<exists>it v1 v2. iterators s a = Some it
                 \<and> iterators ?s1 a = Some (it\<lparr>mPosition := v1\<rparr>)
                 \<and> iterators ?s2 a = Some (it\<lparr>mPosition := v2\<rparr>)"
      by blast
  qed
  have "mIterators ?s1 = mIterators s" "mIterators ?s2 = mIterators s"
    "state.more ?s1 = state.more s" "state.more ?s2 = state.more s"
    by simp_all
  with run1 run2 reg1 reg2 outs inss show ?thesis by blast
qed

text \<open>
  After a removal at position 0 and after a clear of the three-iterator registry: the
  head, the list, the link of the iterator at address 2 and the unlinked iterator at
  address 9 are as before.
\<close>


theorem operations_change_positions_only_witness:
  "registry example_three_cursors [1, 2, 3] \<and> ((- 1 :: 64 word) = 1 \<or> (- 1 :: 64 word) = - 1)
   \<and> (\<exists>s1 s2. AdjustIterators example_three_cursors 0 (- 1) = Some (Inr s1)
         \<and> ClearIterators example_three_cursors = Some (Inr s2)
         \<and> mIterators s1 = Some 1 \<and> mIterators s2 = Some 1
         \<and> registry s1 [1, 2, 3] \<and> registry s2 [1, 2, 3]
         \<and> iterators s1 9 = Some \<lparr>mPosition = 7, mNext = None\<rparr>
         \<and> iterators s2 9 = Some \<lparr>mPosition = 7, mNext = None\<rparr>
         \<and> map_option mNext (iterators s1 2) = Some (Some 3)
         \<and> map_option mNext (iterators s2 2) = Some (Some 3))"
proof -
  have r: "registry example_three_cursors [1, 2, 3]"
    by (simp add: registry_def example_three_cursors_def)
  have d: "(- 1 :: 64 word) = 1 \<or> (- 1 :: 64 word) = - 1" by simp
  have e: "mIterators example_three_cursors = Some 1"
    "iterators example_three_cursors 9 = Some \<lparr>mPosition = 7, mNext = None\<rparr>"
    "iterators example_three_cursors 2 = Some \<lparr>mPosition = 2, mNext = Some 3\<rparr>"
    by (simp_all add: example_three_cursors_def)
  from operations_change_positions_only [OF r d, of 0] obtain s1 s2 where
    "AdjustIterators example_three_cursors 0 (- 1) = Some (Inr s1)"
    "ClearIterators example_three_cursors = Some (Inr s2)"
    "mIterators s1 = mIterators example_three_cursors"
    "mIterators s2 = mIterators example_three_cursors"
    "registry s1 [1, 2, 3]" "registry s2 [1, 2, 3]"
    "\<forall>a. a \<notin> set [1, 2, 3] \<longrightarrow> iterators s1 a = iterators example_three_cursors a
        \<and> iterators s2 a = iterators example_three_cursors a"
    "\<forall>a \<in> set [1, 2, 3]. \<exists>it v1 v2. iterators example_three_cursors a = Some it
                 \<and> iterators s1 a = Some (it\<lparr>mPosition := v1\<rparr>)
                 \<and> iterators s2 a = Some (it\<lparr>mPosition := v2\<rparr>)"
    by blast
  then show ?thesis using r e by auto
qed

text \<open>
  C6. On every finite, null-terminated registry list both operations terminate, and
  each is one linear walk: the loop it runs returns, the iterators on which the loop
  body ran are, in order, exactly the members of the registry, none of them twice, and
  the state the operation returns is the state it was called in with the store that
  this very walk leaves. \<open>ClearIterators\<close> always returns normally;
  \<open>AdjustIterators\<close> returns normally when the adjustment is \<open>+1\<close> or \<open>-1\<close>, and
  its only other outcome is the assertion failure on the adjustment.
\<close>

theorem walks_terminate_visiting_each_cursor_once:
  assumes "registry s cs"
  shows "(\<exists>h'. AdjustIterators_loop (iterators s) [] (mIterators s) p d = Some (Inr (h', cs))
             \<and> (d = 1 \<or> d = - 1 \<longrightarrow> AdjustIterators s p d = Some (Inr (s\<lparr>iterators := h'\<rparr>))))
       \<and> (\<exists>h'. ClearIterators_loop (iterators s) [] (mIterators s) = Some (Inr (h', cs))
             \<and> ClearIterators s = Some (Inr (s\<lparr>iterators := h'\<rparr>)))
       \<and> distinct cs
       \<and> (d \<noteq> 1 \<and> d \<noteq> - 1 \<longrightarrow> AdjustIterators s p d = Some (Inl AssertionFailure))"
proof -
  from assms have ch: "chain (iterators s) (mIterators s) cs" by (simp add: registry_def)
  from AdjustIterators_loop_chain [OF ch, of "[]" p d] obtain h1 where
    run1: "AdjustIterators_loop (iterators s) [] (mIterators s) p d = Some (Inr (h1, cs))"
    by auto
  have tie1: "AdjustIterators s p d = Some (Inr (s\<lparr>iterators := h1\<rparr>))" if "d = 1 \<or> d = - 1"
    using that run1 by (auto simp: AdjustIterators_def MOZ_ASSERT_def)
  from run1 tie1 have a: "\<exists>h'. AdjustIterators_loop (iterators s) [] (mIterators s) p d = Some (Inr (h', cs))
             \<and> (d = 1 \<or> d = - 1 \<longrightarrow> AdjustIterators s p d = Some (Inr (s\<lparr>iterators := h'\<rparr>)))"
    by blast
  from ClearIterators_loop_chain [OF ch, of "[]"] obtain h2 where
    run2: "ClearIterators_loop (iterators s) [] (mIterators s) = Some (Inr (h2, cs))"
    by auto
  then have "ClearIterators s = Some (Inr (s\<lparr>iterators := h2\<rparr>))"
    by (simp add: ClearIterators_def)
  with run2 have b: "\<exists>h'. ClearIterators_loop (iterators s) [] (mIterators s) = Some (Inr (h', cs))
             \<and> ClearIterators s = Some (Inr (s\<lparr>iterators := h'\<rparr>))"
    by blast
  from ch have c: "distinct cs" by (rule chain_distinct)
  have g: "d \<noteq> 1 \<and> d \<noteq> - 1 \<longrightarrow> AdjustIterators s p d = Some (Inl AssertionFailure)"
    by (simp add: AdjustIterators_def MOZ_ASSERT_def)
  from a b c g show ?thesis by blast
qed

text \<open>
  Both walks over the three-iterator registry visit the addresses 1, 2, 3 and stop, and
  each operation returns the store its walk leaves; an adjustment of 5 aborts.
\<close>

theorem walks_terminate_visiting_each_cursor_once_witness:
  "registry example_three_cursors [1, 2, 3]
   \<and> (\<exists>h'. AdjustIterators_loop (iterators example_three_cursors) []
              (mIterators example_three_cursors) 2 1 = Some (Inr (h', [1, 2, 3]))
         \<and> AdjustIterators example_three_cursors 2 1
             = Some (Inr (example_three_cursors\<lparr>iterators := h'\<rparr>)))
   \<and> (\<exists>h'. ClearIterators_loop (iterators example_three_cursors) []
              (mIterators example_three_cursors) = Some (Inr (h', [1, 2, 3]))
         \<and> ClearIterators example_three_cursors
             = Some (Inr (example_three_cursors\<lparr>iterators := h'\<rparr>)))
   \<and> AdjustIterators example_three_cursors 2 5 = Some (Inl AssertionFailure)"
proof -
  have r: "registry example_three_cursors [1, 2, 3]"
    by (simp add: registry_def example_three_cursors_def)
  from walks_terminate_visiting_each_cursor_once [OF r, of 2 1]
    walks_terminate_visiting_each_cursor_once [OF r, of 2 5]
  show ?thesis using r by simp
qed

text \<open>
  C8, as stated (the two calls \<open>AdjustIterators(p, +1)\<close> and \<open>AdjustIterators(p, -1)\<close>
  restore every position, in every registry state), fails where the increment wraps: an
  iterator at the largest \<open>size_t\<close> value is moved to 0 by the first call with
  \<open>p = 0\<close>, and at 0 it is no longer above \<open>p\<close>, so the second call leaves it at 0.
\<close>

theorem insert_then_remove_not_identity_at_max:
  "registry example_cursor_at_max [1]
   \<and> position example_cursor_at_max 1 = Some 18446744073709551615
   \<and> AdjustIterators example_cursor_at_max 0 1 = Some (Inr example_cursor_wrapped)
   \<and> AdjustIterators example_cursor_wrapped 0 (- 1) = Some (Inr example_cursor_wrapped)
   \<and> position example_cursor_wrapped 1 = Some 0
   \<and> position example_cursor_wrapped 1 \<noteq> position example_cursor_at_max 1"
proof -
  have "registry example_cursor_at_max [1]"
    by (simp add: registry_def example_cursor_at_max_def)
  moreover have "position example_cursor_at_max 1 = Some 18446744073709551615"
    by (simp add: position_def example_cursor_at_max_def)
  moreover have "AdjustIterators example_cursor_at_max 0 1 = Some (Inr example_cursor_wrapped)"
    by (simp add: AdjustIterators_def MOZ_ASSERT_def example_cursor_at_max_def
        example_cursor_wrapped_def AdjustIterators_loop_Some AdjustIterators_loop_null word_gt_0)
  moreover have "AdjustIterators example_cursor_wrapped 0 (- 1) = Some (Inr example_cursor_wrapped)"
    by (simp add: AdjustIterators_def MOZ_ASSERT_def
        example_cursor_wrapped_def AdjustIterators_loop_Some AdjustIterators_loop_null)
  moreover have "position example_cursor_wrapped 1 = Some 0"
    by (simp add: position_def example_cursor_wrapped_def)
  moreover have "position example_cursor_wrapped 1 \<noteq> position example_cursor_at_max 1"
    by (simp add: position_def example_cursor_wrapped_def example_cursor_at_max_def)
  ultimately show ?thesis by blast
qed

text \<open>
  C8, amended. On every registry and for every position \<open>p\<close>, the call
  \<open>AdjustIterators(p, +1)\<close> followed by \<open>AdjustIterators(p, -1)\<close> returns and restores
  the position of every live iterator whose position before the first call is not the
  largest \<open>size_t\<close> value, or is not above \<open>p\<close>.
\<close>

theorem insert_then_remove_restores_positions_below_max:
  assumes "registry s cs"
  shows "\<exists>s1 s2. AdjustIterators s p 1 = Some (Inr s1)
           \<and> AdjustIterators s1 p (- 1) = Some (Inr s2)
           \<and> (\<forall>c \<in> set cs. \<exists>pos. position s c = Some pos
                 \<and> (pos \<noteq> - 1 \<or> pos \<le> p \<longrightarrow> position s2 c = Some pos))"
proof -
  have d1: "(1 :: 'a word) = 1 \<or> (1 :: 'a word) = - 1" by simp
  have d2: "(- 1 :: 'a word) = 1 \<or> (- 1 :: 'a word) = - 1" by simp
  from AdjustIterators_registry [OF assms d1, of p] obtain h1 where
    run1: "AdjustIterators s p 1 = Some (Inr (s\<lparr>iterators := h1\<rparr>))"
    and ins1: "\<forall>a \<in> set cs. \<exists>it. iterators s a = Some it
             \<and> h1 a = Some (it\<lparr>mPosition := (if mPosition it > p then mPosition it + 1 else mPosition it)\<rparr>)"
    by blast
  let ?s1 = "s\<lparr>iterators := h1\<rparr>"
  from ins1 have "\<forall>a \<in> set cs. \<exists>it v. iterators s a = Some it \<and> h1 a = Some (it\<lparr>mPosition := v\<rparr>)"
    by blast
  with assms have reg1: "registry ?s1 cs"
    by (simp add: registry_def chain_same_links)
  from AdjustIterators_registry [OF reg1 d2, of p] obtain h2 where
    run2: "AdjustIterators ?s1 p (- 1) = Some (Inr (?s1\<lparr>iterators := h2\<rparr>))"
    and ins2: "\<forall>a \<in> set cs. \<exists>it. iterators ?s1 a = Some it
             \<and> h2 a = Some (it\<lparr>mPosition := (if mPosition it > p then mPosition it + - 1 else mPosition it)\<rparr>)"
    by blast
  let ?s2 = "?s1\<lparr>iterators := h2\<rparr>"
  have "\<exists>pos. position s c = Some pos \<and> (pos \<noteq> - 1 \<or> pos \<le> p \<longrightarrow> position ?s2 c = Some pos)"
    if c: "c \<in> set cs" for c
  proof -
    from ins1 c obtain it where i: "iterators s c = Some it"
      and j: "h1 c = Some (it\<lparr>mPosition := (if mPosition it > p then mPosition it + 1 else mPosition it)\<rparr>)"
      by blast
    define q where "q = (if mPosition it > p then mPosition it + 1 else mPosition it)"
    from ins2 c j have k: "h2 c = Some (it\<lparr>mPosition := (if q > p then q + - 1 else q)\<rparr>)"
      by (auto simp: q_def)
    have "(if q > p then q + - 1 else q) = mPosition it" if ok: "mPosition it \<noteq> - 1 \<or> mPosition it \<le> p"
    proof (cases "p < mPosition it")
      case True
      with ok have "mPosition it \<noteq> - 1" by auto
      with True have "p < mPosition it + 1" by (rule word_inc_above)
      with True show ?thesis by (simp add: q_def)
    next
      case False
      then show ?thesis by (simp add: q_def)
    qed
    with i k show ?thesis by (simp add: position_def)
  qed
  with run1 run2 show ?thesis by blast
qed

text \<open>Insertion and removal at position 1 leave the three iterators at 0, 2 and 4.\<close>

theorem insert_then_remove_restores_positions_below_max_witness:
  "registry example_three_cursors [1, 2, 3]
   \<and> (\<exists>s1 s2. AdjustIterators example_three_cursors 1 1 = Some (Inr s1)
         \<and> AdjustIterators s1 1 (- 1) = Some (Inr s2)
         \<and> position s2 1 = Some 0 \<and> position s2 2 = Some 2 \<and> position s2 3 = Some 4)"
proof -
  have r: "registry example_three_cursors [1, 2, 3]"
    by (simp add: registry_def example_three_cursors_def)
  have pos: "position example_three_cursors 1 = Some 0"
    "position example_three_cursors 2 = Some 2"
    "position example_three_cursors 3 = Some 4"
    by (simp_all add: position_def example_three_cursors_def)
  from insert_then_remove_restores_positions_below_max [OF r, of 1]
  show ?thesis using r pos by auto
qed

text \<open>
  C9. \<open>AdjustIterators\<close> with the adjustment \<open>-1\<close> never wraps a position below zero.
  On every registry the call returns; a live iterator is decremented only when its
  position is above \<open>aModPos\<close>, that position is then at least 1, and its new value,
  read as an integer, is the old one minus one and still at or above \<open>aModPos\<close>.
  Every other live iterator keeps its position, and no position grows.
\<close>

theorem AdjustIterators_decrement_no_underflow:
  assumes "registry s cs"
  shows "\<exists>s'. AdjustIterators s p (- 1) = Some (Inr s')
           \<and> (\<forall>c \<in> set cs. \<exists>pos pos'. position s c = Some pos \<and> position s' c = Some pos'
                 \<and> (p < pos \<longrightarrow> 1 \<le> uint pos \<and> uint pos' = uint pos - 1 \<and> p \<le> pos')
                 \<and> (pos \<le> p \<longrightarrow> pos' = pos)
                 \<and> pos' \<le> pos)"
proof -
  have d: "(- 1 :: 'a word) = 1 \<or> (- 1 :: 'a word) = - 1" by simp
  from AdjustIterators_registry [OF assms d, of p] obtain h' where
    run: "AdjustIterators s p (- 1) = Some (Inr (s\<lparr>iterators := h'\<rparr>))"
    and ins: "\<forall>a \<in> set cs. \<exists>it. iterators s a = Some it
             \<and> h' a = Some (it\<lparr>mPosition := (if mPosition it > p then mPosition it + - 1 else mPosition it)\<rparr>)"
    by blast
  have "\<exists>pos pos'. position s c = Some pos \<and> position (s\<lparr>iterators := h'\<rparr>) c = Some pos'
                 \<and> (p < pos \<longrightarrow> 1 \<le> uint pos \<and> uint pos' = uint pos - 1 \<and> p \<le> pos')
                 \<and> (pos \<le> p \<longrightarrow> pos' = pos)
                 \<and> pos' \<le> pos"
    if "c \<in> set cs" for c
  proof -
    from ins that obtain it where i: "iterators s c = Some it"
      and j: "h' c = Some (it\<lparr>mPosition := (if mPosition it > p then mPosition it + - 1 else mPosition it)\<rparr>)"
      by blast
    show ?thesis
    proof (cases "p < mPosition it")
      case True
      from word_dec_no_wrap [OF True] i j True show ?thesis
        by (simp add: position_def)
    next
      case False
      with i j show ?thesis by (simp add: position_def)
    qed
  qed
  with run show ?thesis by blast
qed

text \<open>A removal at position 0 moves the three iterators from 0, 2 and 4 to 0, 1 and 3.\<close>

theorem AdjustIterators_decrement_no_underflow_witness:
  "registry example_three_cursors [1, 2, 3]
   \<and> (\<exists>s'. AdjustIterators example_three_cursors 0 (- 1) = Some (Inr s')
         \<and> position s' 1 = Some 0 \<and> position s' 2 = Some 1 \<and> position s' 3 = Some 3)"
proof -
  have r: "registry example_three_cursors [1, 2, 3]"
    by (simp add: registry_def example_three_cursors_def)
  have pos: "position example_three_cursors 1 = Some 0"
    "position example_three_cursors 2 = Some 2"
    "position example_three_cursors 3 = Some 4"
    by (simp_all add: position_def example_three_cursors_def)
  from AdjustIterators_decrement_no_underflow [OF r, of 0] obtain s' where
    run: "AdjustIterators example_three_cursors 0 (- 1) = Some (Inr s')"
    and all: "\<forall>c \<in> set [1, 2, 3]. \<exists>pos pos'. position example_three_cursors c = Some pos
                 \<and> position s' c = Some pos'
                 \<and> (0 < pos \<longrightarrow> 1 \<le> uint pos \<and> uint pos' = uint pos - 1 \<and> 0 \<le> pos')
                 \<and> (pos \<le> 0 \<longrightarrow> pos' = pos)
                 \<and> pos' \<le> pos"
    by blast
  from all pos have "position s' 1 = Some 0" by auto
  moreover from all pos obtain q2 where "position s' 2 = Some q2" "uint q2 = 1" by auto
  then have "position s' 2 = Some 1" by (simp add: word_uint_eq_iff)
  moreover from all pos obtain q3 where "position s' 3 = Some q3" "uint q3 = 3" by auto
  then have "position s' 3 = Some 3" by (simp add: word_uint_eq_iff)
  ultimately show ?thesis using r run by blast
qed

text \<open>
  C10. The state in which every live iterator is at position zero is a fixed point. On
  every registry, the state that \<open>ClearIterators\<close> leaves is returned unchanged by a
  further \<open>ClearIterators\<close> and by \<open>AdjustIterators(p, d)\<close> for every position \<open>p\<close>
  and every adjustment \<open>d\<close> of \<open>+1\<close> or \<open>-1\<close>; every live iterator is at zero in it.
\<close>

theorem cleared_registry_is_fixed_point:
  assumes "registry s cs"
  shows "\<exists>s'. ClearIterators s = Some (Inr s')
           \<and> ClearIterators s' = Some (Inr s')
           \<and> (\<forall>p d. d = 1 \<or> d = - 1 \<longrightarrow> AdjustIterators s' p d = Some (Inr s'))
           \<and> (\<forall>c \<in> set cs. position s' c = Some 0)"
proof -
  from ClearIterators_registry [OF assms] obtain h' where
    run: "ClearIterators s = Some (Inr (s\<lparr>iterators := h'\<rparr>))"
    and ins: "\<forall>a \<in> set cs. \<exists>it. iterators s a = Some it \<and> h' a = Some (it\<lparr>mPosition := 0\<rparr>)"
    by blast
  let ?s = "s\<lparr>iterators := h'\<rparr>"
  from ins have "\<forall>a \<in> set cs. \<exists>it v. iterators s a = Some it \<and> h' a = Some (it\<lparr>mPosition := v\<rparr>)"
    by blast
  with assms have reg: "registry ?s cs"
    by (simp add: registry_def chain_same_links)
  have zero: "\<exists>it. h' a = Some it \<and> mPosition it = 0" if "a \<in> set cs" for a
    using ins that by auto
  have again: "ClearIterators ?s = Some (Inr ?s)"
  proof -
    from ClearIterators_registry [OF reg] obtain h2 where
      run2: "ClearIterators ?s = Some (Inr (?s\<lparr>iterators := h2\<rparr>))"
      and out2: "\<forall>a. a \<notin> set cs \<longrightarrow> h2 a = iterators ?s a"
      and ins2: "\<forall>a \<in> set cs. \<exists>it. iterators ?s a = Some it \<and> h2 a = Some (it\<lparr>mPosition := 0\<rparr>)"
      by blast
    have "h2 a = iterators ?s a" for a
    proof (cases "a \<in> set cs")
      case True
      from ins2 True obtain it where i: "h' a = Some it" and j: "h2 a = Some (it\<lparr>mPosition := 0\<rparr>)"
        by auto
      from zero [OF True] i have "mPosition it = 0" by simp
      then have "it\<lparr>mPosition := 0\<rparr> = it" by simp
      with i j show ?thesis by simp
    next
      case False
      with out2 show ?thesis by simp
    qed
    then have "?s\<lparr>iterators := h2\<rparr> = ?s" by (rule state_iterators_same)
    with run2 show ?thesis by simp
  qed
  have adjust: "AdjustIterators ?s p d = Some (Inr ?s)" if d: "d = 1 \<or> d = - 1" for p d
  proof -
    from AdjustIterators_registry [OF reg d, of p] obtain h2 where
      run2: "AdjustIterators ?s p d = Some (Inr (?s\<lparr>iterators := h2\<rparr>))"
      and out2: "\<forall>a. a \<notin> set cs \<longrightarrow> h2 a = iterators ?s a"
      and ins2: "\<forall>a \<in> set cs. \<exists>it. iterators ?s a = Some it
          \<and> h2 a = Some (it\<lparr>mPosition := (if mPosition it > p then mPosition it + d else mPosition it)\<rparr>)"
      by blast
    have "h2 a = iterators ?s a" for a
    proof (cases "a \<in> set cs")
      case True
      from ins2 True obtain it where i: "h' a = Some it"
        and j: "h2 a = Some (it\<lparr>mPosition := (if mPosition it > p then mPosition it + d else mPosition it)\<rparr>)"
        by auto
      from zero [OF True] i have z: "mPosition it = 0" by simp
      then have "\<not> p < mPosition it" by simp
      with j have "h2 a = Some (it\<lparr>mPosition := mPosition it\<rparr>)" by simp
      with i show ?thesis by simp
    next
      case False
      with out2 show ?thesis by simp
    qed
    then have "?s\<lparr>iterators := h2\<rparr> = ?s" by (rule state_iterators_same)
    with run2 show ?thesis by simp
  qed
  from ins have "\<forall>c \<in> set cs. position ?s c = Some 0"
    by (auto simp: position_def)
  with run again adjust show ?thesis by blast
qed

text \<open>The cleared three-iterator registry survives a clear, an insertion and a removal.\<close>

theorem cleared_registry_is_fixed_point_witness:
  "registry example_three_cursors [1, 2, 3]
   \<and> (\<exists>s'. ClearIterators example_three_cursors = Some (Inr s')
         \<and> ClearIterators s' = Some (Inr s')
         \<and> AdjustIterators s' 0 1 = Some (Inr s')
         \<and> AdjustIterators s' 3 (- 1) = Some (Inr s')
         \<and> position s' 1 = Some 0 \<and> position s' 2 = Some 0 \<and> position s' 3 = Some 0)"
proof -
  have r: "registry example_three_cursors [1, 2, 3]"
    by (simp add: registry_def example_three_cursors_def)
  from cleared_registry_is_fixed_point [OF r]
  show ?thesis using r by auto
qed

section \<open>Claims about the ASCII masks\<close>

text \<open>
  C7. For every ASCII byte \<open>c\<close> (its code is below 128) the entry of each table at
  \<open>c\<close> decides membership in the set the table is named after: \<open>MaskWhitespace\<close> is
  true exactly at form feed, tab, carriage return, line feed and space, \<open>MaskCRLF\<close>
  exactly at carriage return and line feed, \<open>MaskCRLFTab\<close> exactly at carriage return,
  line feed and tab, and \<open>Mask0to9\<close> exactly at the bytes from \<open>'0'\<close> to \<open>'9'\<close>.
\<close>

theorem ASCII_masks_decide_membership:
  fixes c :: char
  assumes "of_char c < (128 :: nat)"
  shows "(MaskWhitespace ! of_char c \<longleftrightarrow> c \<in> {CHR 0x0C, CHR 0x09, CHR 0x0D, CHR 0x0A, CHR '' ''})
       \<and> (MaskCRLF ! of_char c \<longleftrightarrow> c \<in> {CHR 0x0D, CHR 0x0A})
       \<and> (MaskCRLFTab ! of_char c \<longleftrightarrow> c \<in> {CHR 0x0D, CHR 0x0A, CHR 0x09})
       \<and> (Mask0to9 ! of_char c \<longleftrightarrow> CHR ''0'' \<le> c \<and> c \<le> CHR ''9'')"
proof -
  have "MaskWhitespace ! of_char c = TestWhitespace c"
    using assms by (simp add: MaskWhitespace_def sWhitespaceMask_def CreateASCIIMask_nth)
  moreover have "MaskCRLF ! of_char c = TestCRLF c"
    using assms by (simp add: MaskCRLF_def sCRLFMask_def CreateASCIIMask_nth)
  moreover have "MaskCRLFTab ! of_char c = TestCRLFTab c"
    using assms by (simp add: MaskCRLFTab_def sCRLFTabMask_def CreateASCIIMask_nth)
  moreover have "Mask0to9 ! of_char c = TestZeroToNine c"
    using assms by (simp add: Mask0to9_def sZeroToNineMask_def CreateASCIIMask_nth)
  moreover have "TestWhitespace c \<longleftrightarrow> c \<in> {CHR 0x0C, CHR 0x09, CHR 0x0D, CHR 0x0A, CHR '' ''}"
    by (simp add: TestWhitespace_def)
  moreover have "TestCRLF c \<longleftrightarrow> c \<in> {CHR 0x0D, CHR 0x0A}"
    by (simp add: TestCRLF_def)
  moreover have "TestCRLFTab c \<longleftrightarrow> c \<in> {CHR 0x0D, CHR 0x0A, CHR 0x09}"
    by (simp add: TestCRLFTab_def)
  ultimately show ?thesis
    by (simp only: TestZeroToNine_range) 
qed

text \<open>The entries at the digit \<open>'7'\<close> (byte 55) and at the tab (byte 9).\<close>

theorem ASCII_masks_decide_membership_witness:
  "of_char (CHR ''7'') < (128 :: nat) \<and> of_char (CHR 0x09) < (128 :: nat)
   \<and> \<not> MaskWhitespace ! 55 \<and> \<not> MaskCRLF ! 55 \<and> \<not> MaskCRLFTab ! 55 \<and> Mask0to9 ! 55
   \<and> MaskWhitespace ! 9 \<and> \<not> MaskCRLF ! 9 \<and> MaskCRLFTab ! 9 \<and> \<not> Mask0to9 ! 9"
  using ASCII_masks_decide_membership [of "CHR ''7''"]
    ASCII_masks_decide_membership [of "CHR 0x09"]
  by (simp add: less_eq_char_def)

end
